theory Spec2Isabelle
  imports Main
begin

section \<open>The menu reducer of \<open>src/components/menu/menu.tsx\<close>\<close>

text \<open>
  The menu component keeps its whole behaviour in one reducer: a \<open>StateDefinition\<close>
  value, a tagged union of actions, one function per action type in the table
  \<open>reducers\<close>, and the helper \<open>calculateActiveItemIndex\<close> that resolves a
  \<open>Focus\<close> intent to an index. This theory embeds exactly that part.

  Conventions of the embedding:
  \<^item> a JavaScript \<open>number | null\<close> that holds an index is an \<open>int option\<close>; \<open>None\<close> is
    \<open>null\<close>, and \<open>Some (- 1)\<close> is the number \<open>-1\<close> that \<open>findIndex\<close> and \<open>indexOf\<close>
    return when nothing is found;
  \<^item> a React ref object is the address of its cell (a \<open>nat\<close>). The reducer only reads
    the cells of the items (\<open>item.dataRef.current\<close>); their contents at the moment of
    a dispatch are the store \<open>\<sigma>\<close> that the reading functions take as first argument.
    The refs of the button and of the items container are stored and never read;
  \<^item> a JavaScript string is a \<open>string\<close>; the reducer only concatenates strings,
    compares them and calls \<open>startsWith\<close>;
  \<^item> an element of \<open>state.items\<close> is an object, and \<open>Array.prototype.indexOf\<close>
    compares objects by identity. The field \<open>oid\<close> of an item is that identity;
    \<open>RegisterItem\<close> allocates a new one for the object literal it builds;
  \<^item> a reducer returns a reference to a state object. Every reducer but one returns an
    object literal \<open>{ ...state, ... }\<close>, a new object, and is modelled by the value of that
    object. The reducer of \<open>GoToItem\<close> also has a \<open>return state\<close>; its result is a
    \<open>returned\<close> value that tells the two apart;
  \<^item> the utility \<open>match(value, lookup, ...args)\<close> of \<open>utils/match\<close> is used on
    enumerations only, with one entry per member; it is a \<open>case\<close> expression here.
\<close>

subsection \<open>Data\<close>

datatype MenuStates = Open | Closed

type_synonym ref = nat

text \<open>The object held by \<open>MenuItemDataRef.current\<close>: \<open>{ textValue?: string; disabled: boolean }\<close>.\<close>

record item_data =
  textValue :: "string option"
  disabled :: bool

type_synonym MenuItemDataRef = ref

type_synonym store = "MenuItemDataRef \<Rightarrow> item_data"

text \<open>An element of \<open>items\<close>: \<open>{ id: string; dataRef: MenuItemDataRef }\<close>, with its identity.\<close>

record item =
  oid :: nat
  id' :: string
  dataRef :: MenuItemDataRef

record StateDefinition =
  menuState :: MenuStates
  buttonRef :: ref
  itemsRef :: ref
  items :: "item list"
  searchQuery :: string
  previousActiveIndex :: "int option"
  activeItemIndex :: "int option"

datatype Focus = FirstItem | PreviousItem | NextItem | LastItem | SpecificItem | Nothing

datatype Actions =
    ToggleMenu
  | CloseMenu
  | OpenMenu
  | GoToItem Focus "string option"
  | Search string
  | ClearSearch
  | SetButtonRef ref
  | SetItemsRef ref
  | RegisterItem string MenuItemDataRef
  | UnregisterItem string

subsection \<open>Array operations of JavaScript\<close>

text \<open>
  \<open>xs.findIndex(p)\<close>: the callback receives the element and its index; the result is
  the first index where it holds, or \<open>-1\<close>.
\<close>

fun findIndexFrom :: "('a \<Rightarrow> int \<Rightarrow> bool) \<Rightarrow> int \<Rightarrow> 'a list \<Rightarrow> int" where
  "findIndexFrom p i [] = - 1"
| "findIndexFrom p i (x # xs) = (if p x i then i else findIndexFrom p (i + 1) xs)"

definition findIndex :: "('a \<Rightarrow> int \<Rightarrow> bool) \<Rightarrow> 'a list \<Rightarrow> int" where
  "findIndex p xs = findIndexFrom p 0 xs"

text \<open>
  \<open>xs[i]\<close> for a number or \<open>null\<close>-guarded index: \<open>undefined\<close> out of range. The value of
  \<open>currentActiveItem\<close> in \<open>UnregisterItem\<close> is \<open>null\<close>, \<open>undefined\<close> or an item.
\<close>

datatype 'a js = Null | Undefined | Obj 'a

definition at_index :: "'a list \<Rightarrow> int \<Rightarrow> 'a js" where
  "at_index xs i = (if 0 \<le> i \<and> i < int (length xs) then Obj (xs ! nat i) else Undefined)"

text \<open>\<open>xs.indexOf(v)\<close> with strict equality: identity on objects, no item equals \<open>undefined\<close>.\<close>

definition indexOf :: "item list \<Rightarrow> item js \<Rightarrow> int" where
  "indexOf xs v = (case v of Obj x \<Rightarrow> findIndex (\<lambda>y _. oid y = oid x) xs | _ \<Rightarrow> - 1)"

text \<open>\<open>xs.splice(idx, 1)\<close> as the array it leaves, for an index \<open>idx\<close> that \<open>findIndex\<close> found.\<close>

definition splice1 :: "'a list \<Rightarrow> int \<Rightarrow> 'a list" where
  "splice1 xs idx = take (nat idx) xs @ drop (nat idx + 1) xs"

text \<open>\<open>t.startsWith(q)\<close>.\<close>

definition startsWith :: "string \<Rightarrow> string \<Rightarrow> bool" where
  "startsWith t q = (take (length q) t = q)"

subsection \<open>Resolving a focus intent\<close>

definition calculateActiveItemIndex ::
    "store \<Rightarrow> StateDefinition \<Rightarrow> Focus \<Rightarrow> string option \<Rightarrow> int option" where
  "calculateActiveItemIndex \<sigma> state focus ident =
    (if int (length (items state)) \<le> 0 then None
     else
       let its = items state;
           active = (case activeItemIndex state of None \<Rightarrow> - 1 | Some a \<Rightarrow> a);
           ensureValidValue = (\<lambda>v. if v = Some (- 1) then activeItemIndex state else v)
       in ensureValidValue
           (case focus of
              FirstItem \<Rightarrow> Some (findIndex (\<lambda>it _. \<not> disabled (\<sigma> (dataRef it))) its)
            | PreviousItem \<Rightarrow>
                (let all = rev its;
                     idx = findIndex
                       (\<lambda>it idx. if int (length all) - idx - 1 \<ge> active then False
                                  else \<not> disabled (\<sigma> (dataRef it))) all
                 in if idx = - 1 then Some idx else Some (int (length its) - 1 - idx))
            | NextItem \<Rightarrow>
                Some (findIndex
                  (\<lambda>it idx. if idx \<le> active then False else \<not> disabled (\<sigma> (dataRef it))) its)
            | LastItem \<Rightarrow>
                (let idx = findIndex (\<lambda>it _. \<not> disabled (\<sigma> (dataRef it))) (rev its)
                 in if idx = - 1 then Some idx else Some (int (length its) - 1 - idx))
            | SpecificItem \<Rightarrow> Some (findIndex (\<lambda>it _. Some (id' it) = ident) its)
            | Nothing \<Rightarrow> None))"

subsection \<open>The reducers\<close>

definition reducers_ToggleMenu :: "StateDefinition \<Rightarrow> StateDefinition" where
  "reducers_ToggleMenu state =
     state\<lparr>menuState := (case menuState state of Open \<Rightarrow> Closed | Closed \<Rightarrow> Open)\<rparr>"

definition reducers_CloseMenu :: "StateDefinition \<Rightarrow> StateDefinition" where
  "reducers_CloseMenu state = state\<lparr>menuState := Closed\<rparr>"

definition reducers_OpenMenu :: "StateDefinition \<Rightarrow> StateDefinition" where
  "reducers_OpenMenu state = state\<lparr>menuState := Open\<rparr>"

text \<open>
  What a reducer returns: \<open>SameRef\<close> is \<open>return state\<close>, the very object it was given;
  \<open>NewObj v\<close> is a newly created object with the fields \<open>v\<close>, also when \<open>v\<close> has the same
  fields as the state given. \<open>returned_state\<close> is the state the reference leads to.
\<close>

datatype 'a returned = SameRef | NewObj 'a

fun returned_state :: "'a \<Rightarrow> 'a returned \<Rightarrow> 'a" where
  "returned_state state SameRef = state"
| "returned_state state (NewObj v) = v"

definition reducers_GoToItem ::
    "store \<Rightarrow> StateDefinition \<Rightarrow> Focus \<Rightarrow> string option \<Rightarrow> StateDefinition returned" where
  "reducers_GoToItem \<sigma> state focus ident =
    (let active = calculateActiveItemIndex \<sigma> state focus ident in
     if searchQuery state = [] \<and>
        previousActiveIndex state = activeItemIndex state \<and>
        activeItemIndex state = active
     then SameRef
     else NewObj (state\<lparr>searchQuery := [],
                        previousActiveIndex := activeItemIndex state,
                        activeItemIndex := active\<rparr>))"

text \<open>
  The callback of \<open>Search\<close>:
  \<open>item.dataRef.current.textValue?.startsWith(searchQuery) && !item.dataRef.current.disabled\<close>.
\<close>

definition matches_query :: "store \<Rightarrow> string \<Rightarrow> item \<Rightarrow> bool" where
  "matches_query \<sigma> query it =
     ((case textValue (\<sigma> (dataRef it)) of
         None \<Rightarrow> False
       | Some t \<Rightarrow> startsWith t query) \<and> \<not> disabled (\<sigma> (dataRef it)))"

definition reducers_Search :: "store \<Rightarrow> StateDefinition \<Rightarrow> string \<Rightarrow> StateDefinition" where
  "reducers_Search \<sigma> state v =
    (let query = searchQuery state @ v;
         found = findIndex (\<lambda>it _. matches_query \<sigma> query it) (items state)
     in if found = - 1 \<or> Some found = activeItemIndex state
        then state\<lparr>searchQuery := query\<rparr>
        else state\<lparr>searchQuery := query,
                   previousActiveIndex := activeItemIndex state,
                   activeItemIndex := Some found\<rparr>)"

definition reducers_ClearSearch :: "StateDefinition \<Rightarrow> StateDefinition" where
  "reducers_ClearSearch state = state\<lparr>searchQuery := []\<rparr>"

definition reducers_SetButtonRef :: "StateDefinition \<Rightarrow> ref \<Rightarrow> StateDefinition" where
  "reducers_SetButtonRef state r = state\<lparr>buttonRef := r\<rparr>"

definition reducers_SetItemsRef :: "StateDefinition \<Rightarrow> ref \<Rightarrow> StateDefinition" where
  "reducers_SetItemsRef state r = state\<lparr>itemsRef := r\<rparr>"

text \<open>The identity of the object that \<open>{ id: action.id, dataRef: action.dataRef }\<close> creates.\<close>

definition fresh_oid :: "item list \<Rightarrow> nat" where
  "fresh_oid xs = foldr (\<lambda>x m. max (Suc (oid x)) m) xs 0"

definition reducers_RegisterItem ::
    "StateDefinition \<Rightarrow> string \<Rightarrow> MenuItemDataRef \<Rightarrow> StateDefinition" where
  "reducers_RegisterItem state ident r =
     state\<lparr>items := items state @ [\<lparr>oid = fresh_oid (items state), id' = ident, dataRef = r\<rparr>]\<rparr>"

definition reducers_UnregisterItem :: "StateDefinition \<Rightarrow> string \<Rightarrow> StateDefinition" where
  "reducers_UnregisterItem state ident =
    (let nextItems = items state;
         currentActiveItem =
           (case activeItemIndex state of None \<Rightarrow> Null | Some a \<Rightarrow> at_index nextItems a);
         idx = findIndex (\<lambda>a _. id' a = ident) nextItems;
         nextItems = (if idx \<noteq> - 1 then splice1 nextItems idx else nextItems)
     in state\<lparr>items := nextItems,
              previousActiveIndex := activeItemIndex state,
              activeItemIndex :=
                (if Some idx = activeItemIndex state then None
                 else if currentActiveItem = Null then None
                 else Some (indexOf nextItems currentActiveItem))\<rparr>)"

definition defaultState :: StateDefinition where
  "defaultState =
     \<lparr>menuState = Closed, buttonRef = 0, itemsRef = 1, items = [], searchQuery = [],
      previousActiveIndex = None, activeItemIndex = None\<rparr>"

fun stateReducer :: "store \<Rightarrow> StateDefinition \<Rightarrow> Actions \<Rightarrow> StateDefinition" where
  "stateReducer \<sigma> state ToggleMenu = reducers_ToggleMenu state"
| "stateReducer \<sigma> state CloseMenu = reducers_CloseMenu state"
| "stateReducer \<sigma> state OpenMenu = reducers_OpenMenu state"
| "stateReducer \<sigma> state (GoToItem focus ident) =
     returned_state state (reducers_GoToItem \<sigma> state focus ident)"
| "stateReducer \<sigma> state (Search v) = reducers_Search \<sigma> state v"
| "stateReducer \<sigma> state ClearSearch = reducers_ClearSearch state"
| "stateReducer \<sigma> state (SetButtonRef r) = reducers_SetButtonRef state r"
| "stateReducer \<sigma> state (SetItemsRef r) = reducers_SetItemsRef state r"
| "stateReducer \<sigma> state (RegisterItem ident r) = reducers_RegisterItem state ident r"
| "stateReducer \<sigma> state (UnregisterItem ident) = reducers_UnregisterItem state ident"

subsection \<open>Reachable states\<close>

text \<open>
  \<open>React.useReducer(stateReducer, defaultState)\<close>: every state of the component is the
  default state followed by dispatched actions. The cells of the items are written by
  effects between dispatches, so each step reads a store of its own.
\<close>

inductive reachable :: "StateDefinition \<Rightarrow> bool" where
  init: "reachable defaultState"
| step: "reachable state \<Longrightarrow> reachable (stateReducer \<sigma> state action)"

text \<open>The active index is \<open>null\<close> or an index into \<open>items\<close>.\<close>

definition active_valid :: "StateDefinition \<Rightarrow> bool" where
  "active_valid state =
     (case activeItemIndex state of
        None \<Rightarrow> True
      | Some a \<Rightarrow> 0 \<le> a \<and> a < int (length (items state)))"

subsection \<open>Example menus\<close>

text \<open>
  The menus of the component's tests: three items registered in order, whose cells hold
  the labels \<open>alice\<close>, \<open>bob\<close> and \<open>charlie\<close>, all enabled, with only \<open>bob\<close> enabled, or
  all disabled.
\<close>

definition cells :: "item_data list \<Rightarrow> store" where
  "cells ds r = (if r < length ds then ds ! r else \<lparr>textValue = None, disabled = False\<rparr>)"

definition dispatch_all :: "store \<Rightarrow> StateDefinition \<Rightarrow> Actions list \<Rightarrow> StateDefinition" where
  "dispatch_all \<sigma> state acts = foldl (stateReducer \<sigma>) state acts"

definition label :: "string \<Rightarrow> bool \<Rightarrow> item_data" where
  "label t d = \<lparr>textValue = Some t, disabled = d\<rparr>"

definition menu_abc :: StateDefinition where
  "menu_abc = dispatch_all (cells []) defaultState
     [RegisterItem ''item-1'' 0, RegisterItem ''item-2'' 1, RegisterItem ''item-3'' 2]"

definition cells_abc :: store where
  "cells_abc = cells [label ''alice'' False, label ''bob'' False, label ''charlie'' False]"

definition cells_only_bob :: store where
  "cells_only_bob = cells [label ''alice'' True, label ''bob'' False, label ''charlie'' True]"

definition cells_all_disabled :: store where
  "cells_all_disabled = cells [label ''alice'' True, label ''bob'' True, label ''charlie'' True]"

definition abc_first :: StateDefinition where
  "abc_first = stateReducer cells_abc menu_abc (GoToItem FirstItem None)"

definition abc_last :: StateDefinition where
  "abc_last = stateReducer cells_abc menu_abc (GoToItem LastItem None)"

definition abc_end :: StateDefinition where
  "abc_end = stateReducer cells_abc abc_last (GoToItem NextItem None)"

text \<open>A menu in which the first and the third item were registered under the same id.\<close>

definition menu_dup :: StateDefinition where
  "menu_dup = dispatch_all (cells []) defaultState
     [RegisterItem ''item-1'' 0, RegisterItem ''item-2'' 1, RegisterItem ''item-1'' 2]"

definition dup_last :: StateDefinition where
  "dup_last = stateReducer cells_abc menu_dup (GoToItem LastItem None)"

section \<open>Properties\<close>

subsection \<open>What \<open>findIndex\<close> returns\<close>

lemma findIndexFrom_none:
  "(\<And>k. k < length xs \<Longrightarrow> \<not> p (xs ! k) (i + int k)) \<Longrightarrow> findIndexFrom p i xs = - 1"
proof (induction xs arbitrary: i)
  case Nil
  then show ?case by simp
next
  case (Cons x xs)
  have "\<not> p x i" using Cons.prems [of 0] by simp
  moreover have "findIndexFrom p (i + 1) xs = - 1"
  proof (rule Cons.IH)
    fix k assume "k < length xs"
    then show "\<not> p (xs ! k) (i + 1 + int k)"
      using Cons.prems [of "Suc k"] by (simp add: ac_simps)
  qed
  ultimately show ?case by simp
qed

lemma findIndexFrom_first:
  "k < length xs \<Longrightarrow> p (xs ! k) (i + int k) \<Longrightarrow> (\<And>j. j < k \<Longrightarrow> \<not> p (xs ! j) (i + int j))
     \<Longrightarrow> findIndexFrom p i xs = i + int k"
proof (induction xs arbitrary: i k)
  case Nil
  then show ?case by simp
next
  case (Cons x xs)
  show ?case
  proof (cases k)
    case 0
    then show ?thesis using Cons.prems by simp
  next
    case (Suc m)
    have nx: "\<not> p x i" using Cons.prems(3) [of 0] Suc by simp
    have "findIndexFrom p (i + 1) xs = i + 1 + int m"
    proof (rule Cons.IH)
      show "m < length xs" using Cons.prems(1) Suc by simp
      show "p (xs ! m) (i + 1 + int m)" using Cons.prems(2) Suc by (simp add: ac_simps)
      fix j assume "j < m"
      then show "\<not> p (xs ! j) (i + 1 + int j)"
        using Cons.prems(3) [of "Suc j"] Suc by (simp add: ac_simps)
    qed
    then show ?thesis using nx Suc by simp
  qed
qed

lemma findIndexFrom_found:
  "findIndexFrom p i xs = r \<Longrightarrow> 0 \<le> i \<Longrightarrow> r \<noteq> - 1 \<Longrightarrow>
     \<exists>k. k < length xs \<and> r = i + int k \<and> p (xs ! k) (i + int k) \<and> (\<forall>j<k. \<not> p (xs ! j) (i + int j))"
proof (induction xs arbitrary: i)
  case Nil
  then show ?case by simp
next
  case (Cons x xs)
  show ?case
  proof (cases "p x i")
    case True
    then have "r = i" using Cons.prems by simp
    then show ?thesis using True by (intro exI [of _ 0]) simp
  next
    case False
    then have "findIndexFrom p (i + 1) xs = r" using Cons.prems by simp
    from Cons.IH [OF this] Cons.prems obtain k where
      k: "k < length xs" "r = i + 1 + int k" "p (xs ! k) (i + 1 + int k)"
         "\<forall>j<k. \<not> p (xs ! j) (i + 1 + int j)" by auto
    have "\<forall>j<Suc k. \<not> p ((x # xs) ! j) (i + int j)"
    proof (intro allI impI)
      fix j assume "j < Suc k"
      then show "\<not> p ((x # xs) ! j) (i + int j)"
        using False k(4) by (cases j) (auto simp: ac_simps)
    qed
    then show ?thesis using k
      by (intro exI [of _ "Suc k"]) (simp add: ac_simps)
  qed
qed

lemma findIndexFrom_range:
  "0 \<le> i \<Longrightarrow> findIndexFrom p i xs = - 1 \<or> (i \<le> findIndexFrom p i xs \<and> findIndexFrom p i xs < i + int (length xs))"
proof (induction xs arbitrary: i)
  case Nil
  then show ?case by simp
next
  case (Cons x xs)
  have "0 \<le> i + 1" using Cons.prems by simp
  from Cons.IH [OF this] show ?case by auto
qed

lemma findIndex_none:
  "(\<And>k. k < length xs \<Longrightarrow> \<not> p (xs ! k) (int k)) \<Longrightarrow> findIndex p xs = - 1"
  unfolding findIndex_def using findIndexFrom_none [of xs p 0] by simp

lemma findIndex_first:
  "k < length xs \<Longrightarrow> p (xs ! k) (int k) \<Longrightarrow> (\<And>j. j < k \<Longrightarrow> \<not> p (xs ! j) (int j))
     \<Longrightarrow> findIndex p xs = int k"
  unfolding findIndex_def using findIndexFrom_first [of k xs p 0] by simp

lemma findIndex_found:
  "findIndex p xs \<noteq> - 1 \<Longrightarrow>
     \<exists>k. k < length xs \<and> findIndex p xs = int k \<and> p (xs ! k) (int k) \<and> (\<forall>j<k. \<not> p (xs ! j) (int j))"
  unfolding findIndex_def using findIndexFrom_found [of p 0 xs "findIndexFrom p 0 xs"] by simp

lemma findIndex_range:
  "findIndex p xs = - 1 \<or> (0 \<le> findIndex p xs \<and> findIndex p xs < int (length xs))"
  unfolding findIndex_def using findIndexFrom_range [of 0 p xs] by simp

subsection \<open>The state that \<open>GoToItem\<close> leads to\<close>

lemma goToItem_state:
  "returned_state s (reducers_GoToItem \<sigma> s f t) =
     (if searchQuery s = [] \<and> previousActiveIndex s = activeItemIndex s
         \<and> activeItemIndex s = calculateActiveItemIndex \<sigma> s f t
      then s
      else s\<lparr>searchQuery := [], previousActiveIndex := activeItemIndex s,
              activeItemIndex := calculateActiveItemIndex \<sigma> s f t\<rparr>)"
  by (simp add: reducers_GoToItem_def Let_def)

lemma goToItem_items: "items (returned_state s (reducers_GoToItem \<sigma> s f t)) = items s"
  by (simp add: goToItem_state)

subsection \<open>The example menus, evaluated\<close>

lemma menu_abc_eq:
  "menu_abc = \<lparr>menuState = Closed, buttonRef = 0, itemsRef = 1,
     items = [\<lparr>oid = 0, id' = ''item-1'', dataRef = 0\<rparr>,
              \<lparr>oid = 1, id' = ''item-2'', dataRef = 1\<rparr>,
              \<lparr>oid = 2, id' = ''item-3'', dataRef = 2\<rparr>],
     searchQuery = [], previousActiveIndex = None, activeItemIndex = None\<rparr>"
  by (simp add: menu_abc_def dispatch_all_def defaultState_def reducers_RegisterItem_def fresh_oid_def)

lemma abc_first_eq: "abc_first = menu_abc\<lparr>activeItemIndex := Some 0\<rparr>"
  by (simp add: abc_first_def menu_abc_eq cells_abc_def cells_def label_def goToItem_state
      calculateActiveItemIndex_def findIndex_def Let_def)

lemma abc_last_eq: "abc_last = menu_abc\<lparr>activeItemIndex := Some 2\<rparr>"
  by (simp add: abc_last_def menu_abc_eq cells_abc_def cells_def label_def goToItem_state
      calculateActiveItemIndex_def findIndex_def Let_def)

subsection \<open>Next and previous item\<close>

lemma goToItem_active:
  "activeItemIndex (returned_state s (reducers_GoToItem \<sigma> s f t)) =
     calculateActiveItemIndex \<sigma> s f t"
  by (simp add: goToItem_state)

lemma calc_empty: "items s = [] \<Longrightarrow> calculateActiveItemIndex \<sigma> s f t = None"
  by (simp add: calculateActiveItemIndex_def)

lemma active_valid_empty: "active_valid s \<Longrightarrow> items s = [] \<Longrightarrow> activeItemIndex s = None"
  by (cases "activeItemIndex s") (auto simp: active_valid_def)

lemma calc_next_none:
  assumes ne: "items s \<noteq> []"
    and dis: "\<And>k. k < length (items s) \<Longrightarrow>
       (case activeItemIndex s of None \<Rightarrow> - 1 | Some a \<Rightarrow> a) < int k \<Longrightarrow>
       disabled (\<sigma> (dataRef (items s ! k)))"
  shows "calculateActiveItemIndex \<sigma> s NextItem t = activeItemIndex s"
proof -
  let ?a = "case activeItemIndex s of None \<Rightarrow> - 1 | Some a \<Rightarrow> a"
  have "findIndex (\<lambda>it idx. if idx \<le> ?a then False else \<not> disabled (\<sigma> (dataRef it))) (items s) = - 1"
    by (rule findIndex_none) (use dis in auto)
  then show ?thesis using ne by (simp add: calculateActiveItemIndex_def)
qed

lemma calc_prev_none:
  assumes ne: "items s \<noteq> []"
    and dis: "\<And>k. k < length (items s) \<Longrightarrow>
       int k < (case activeItemIndex s of None \<Rightarrow> - 1 | Some a \<Rightarrow> a) \<Longrightarrow>
       disabled (\<sigma> (dataRef (items s ! k)))"
  shows "calculateActiveItemIndex \<sigma> s PreviousItem t = activeItemIndex s"
proof -
  let ?a = "case activeItemIndex s of None \<Rightarrow> - 1 | Some a \<Rightarrow> a"
  let ?n = "length (items s)"
  have "findIndex (\<lambda>it idx. if int (length (rev (items s))) - idx - 1 \<ge> ?a then False
           else \<not> disabled (\<sigma> (dataRef it))) (rev (items s)) = - 1"
  proof (rule findIndex_none)
    fix k assume k: "k < length (rev (items s))"
    then have nth: "rev (items s) ! k = items s ! (?n - Suc k)" by (simp add: rev_nth)
    have lt: "?n - Suc k < ?n" using k by simp
    have eq: "int (?n - Suc k) = int ?n - int k - 1" using k by simp
    show "\<not> (if int (length (rev (items s))) - int k - 1 \<ge> ?a then False
              else \<not> disabled (\<sigma> (dataRef (rev (items s) ! k))))"
      using dis [OF lt] nth eq by auto
  qed
  then show ?thesis using ne by (simp add: calculateActiveItemIndex_def Let_def)
qed

text \<open>
  Claim C1. In a state whose active index is none or an index into the items: when no
  enabled item has an index strictly greater than the active index (taken as \<open>-1\<close> when
  none), dispatching \<open>GoToItem\<close> with focus \<open>NextItem\<close> leaves \<open>activeItemIndex\<close> as it
  was; when no enabled item has an index strictly less than the active index, so does
  focus \<open>PreviousItem\<close>. Neither wraps around.
\<close>

theorem goToItem_no_wrap_around:
  assumes "active_valid s"
  shows "((\<forall>k<length (items s).
            (case activeItemIndex s of None \<Rightarrow> - 1 | Some a \<Rightarrow> a) < int k
              \<longrightarrow> disabled (\<sigma> (dataRef (items s ! k))))
          \<longrightarrow> activeItemIndex (stateReducer \<sigma> s (GoToItem NextItem t)) = activeItemIndex s)
       \<and> ((\<forall>k<length (items s).
            int k < (case activeItemIndex s of None \<Rightarrow> - 1 | Some a \<Rightarrow> a)
              \<longrightarrow> disabled (\<sigma> (dataRef (items s ! k))))
          \<longrightarrow> activeItemIndex (stateReducer \<sigma> s (GoToItem PreviousItem t)) = activeItemIndex s)"
proof (cases "items s = []")
  case True
  then show ?thesis
    using active_valid_empty [OF assms True] by (simp add: goToItem_active calc_empty)
next
  case False
  show ?thesis
    using calc_next_none [OF False, of \<sigma> t] calc_prev_none [OF False, of \<sigma> t]
    by (simp add: goToItem_active)
qed

theorem goToItem_no_wrap_around_witness:
  "active_valid abc_last
   \<and> activeItemIndex (stateReducer cells_abc abc_last (GoToItem NextItem None)) = Some 2
   \<and> active_valid abc_first
   \<and> activeItemIndex (stateReducer cells_abc abc_first (GoToItem PreviousItem None)) = Some 0"
proof -
  have v1: "active_valid abc_last" and v2: "active_valid abc_first"
    by (simp_all add: abc_last_eq abc_first_eq menu_abc_eq active_valid_def)
  have h1: "\<forall>k<length (items abc_last).
      (case activeItemIndex abc_last of None \<Rightarrow> - 1 | Some a \<Rightarrow> a) < int k
        \<longrightarrow> disabled (cells_abc (dataRef (items abc_last ! k)))"
    by (simp add: abc_last_eq menu_abc_eq)
  have h2: "\<forall>k<length (items abc_first).
      int k < (case activeItemIndex abc_first of None \<Rightarrow> - 1 | Some a \<Rightarrow> a)
        \<longrightarrow> disabled (cells_abc (dataRef (items abc_first ! k)))"
    by (simp add: abc_first_eq menu_abc_eq)
  have a1: "activeItemIndex abc_last = Some 2" and a2: "activeItemIndex abc_first = Some 0"
    by (simp_all add: abc_last_eq abc_first_eq)
  show ?thesis
    using goToItem_no_wrap_around [OF v1, of cells_abc None]
      goToItem_no_wrap_around [OF v2, of cells_abc None] h1 h2 v1 v2 a1 a2
    by simp
qed

lemmas eval_defs = cells_abc_def cells_only_bob_def cells_all_disabled_def
  cells_def label_def calculateActiveItemIndex_def findIndex_def Let_def
  reducers_Search_def matches_query_def startsWith_def

lemma abc_end_eq: "abc_end = menu_abc\<lparr>previousActiveIndex := Some 2, activeItemIndex := Some 2\<rparr>"
  by (simp add: abc_end_def abc_last_eq menu_abc_eq eval_defs goToItem_state)

subsection \<open>First and last item\<close>

lemma calc_first_found:
  assumes k: "k < length (items s)" and en: "\<not> disabled (\<sigma> (dataRef (items s ! k)))"
    and before: "\<And>j. j < k \<Longrightarrow> disabled (\<sigma> (dataRef (items s ! j)))"
  shows "calculateActiveItemIndex \<sigma> s FirstItem t = Some (int k)"
proof -
  have "findIndex (\<lambda>it _. \<not> disabled (\<sigma> (dataRef it))) (items s) = int k"
    by (rule findIndex_first) (use k en before in auto)
  moreover have "items s \<noteq> []" using k by auto
  ultimately show ?thesis by (simp add: calculateActiveItemIndex_def)
qed

lemma calc_last_found:
  assumes k: "k < length (items s)" and en: "\<not> disabled (\<sigma> (dataRef (items s ! k)))"
    and after: "\<And>j. k < j \<Longrightarrow> j < length (items s) \<Longrightarrow> disabled (\<sigma> (dataRef (items s ! j)))"
  shows "calculateActiveItemIndex \<sigma> s LastItem t = Some (int k)"
proof -
  let ?n = "length (items s)"
  let ?k = "?n - Suc k"
  have kk: "?k < length (rev (items s))" using k by simp
  have kinv: "?n - Suc ?k = k" using k by simp
  have "findIndex (\<lambda>it _. \<not> disabled (\<sigma> (dataRef it))) (rev (items s)) = int ?k"
  proof (rule findIndex_first [OF kk])
    show "\<not> disabled (\<sigma> (dataRef (rev (items s) ! ?k)))"
      using en k kinv by (simp add: rev_nth)
    fix j assume j: "j < ?k"
    then have "j < ?n" by simp
    then have "rev (items s) ! j = items s ! (?n - Suc j)" by (simp add: rev_nth)
    moreover have "k < ?n - Suc j" "?n - Suc j < ?n" using j k by auto
    ultimately show "\<not> \<not> disabled (\<sigma> (dataRef (rev (items s) ! j)))"
      using after by simp
  qed
  moreover have "items s \<noteq> []" using k by auto
  moreover have "int ?n - 1 - int ?k = int k" using k by simp
  ultimately show ?thesis by (simp add: calculateActiveItemIndex_def Let_def)
qed

lemma calc_first_all_disabled:
  assumes ne: "items s \<noteq> []" and dis: "\<And>k. k < length (items s) \<Longrightarrow> disabled (\<sigma> (dataRef (items s ! k)))"
  shows "calculateActiveItemIndex \<sigma> s FirstItem t = activeItemIndex s"
proof -
  have "findIndex (\<lambda>it _. \<not> disabled (\<sigma> (dataRef it))) (items s) = - 1"
    by (rule findIndex_none) (use dis in auto)
  then show ?thesis using ne by (simp add: calculateActiveItemIndex_def)
qed

lemma calc_last_all_disabled:
  assumes ne: "items s \<noteq> []" and dis: "\<And>k. k < length (items s) \<Longrightarrow> disabled (\<sigma> (dataRef (items s ! k)))"
  shows "calculateActiveItemIndex \<sigma> s LastItem t = activeItemIndex s"
proof -
  have "findIndex (\<lambda>it _. \<not> disabled (\<sigma> (dataRef it))) (rev (items s)) = - 1"
  proof (rule findIndex_none)
    fix k assume k: "k < length (rev (items s))"
    then have "rev (items s) ! k = items s ! (length (items s) - Suc k)" by (simp add: rev_nth)
    moreover have "length (items s) - Suc k < length (items s)" using k by simp
    ultimately show "\<not> \<not> disabled (\<sigma> (dataRef (rev (items s) ! k)))" using dis by simp
  qed
  then show ?thesis using ne by (simp add: calculateActiveItemIndex_def Let_def)
qed

text \<open>
  Claim C2, as the code has it. Resolving \<open>FirstItem\<close> yields the index of the first
  enabled item and \<open>LastItem\<close> the index of the last enabled item. On an empty list both
  yield none. On a list that is not empty and whose items are all disabled, both yield
  the active index the state already had (\<open>ensureValidValue\<close> turns the \<open>-1\<close> of
  \<open>findIndex\<close> into \<open>state.activeItemIndex\<close>), which is none only when that was none.
\<close>

theorem first_last_item_resolved:
  "(items s = [] \<longrightarrow>
      calculateActiveItemIndex \<sigma> s FirstItem t = None
      \<and> calculateActiveItemIndex \<sigma> s LastItem t = None)
   \<and> (items s \<noteq> [] \<and> (\<forall>k<length (items s). disabled (\<sigma> (dataRef (items s ! k)))) \<longrightarrow>
      calculateActiveItemIndex \<sigma> s FirstItem t = activeItemIndex s
      \<and> calculateActiveItemIndex \<sigma> s LastItem t = activeItemIndex s)
   \<and> (\<forall>k<length (items s).
        \<not> disabled (\<sigma> (dataRef (items s ! k)))
        \<and> (\<forall>j<k. disabled (\<sigma> (dataRef (items s ! j)))) \<longrightarrow>
        calculateActiveItemIndex \<sigma> s FirstItem t = Some (int k))
   \<and> (\<forall>k<length (items s).
        \<not> disabled (\<sigma> (dataRef (items s ! k)))
        \<and> (\<forall>j<length (items s). k < j \<longrightarrow> disabled (\<sigma> (dataRef (items s ! j)))) \<longrightarrow>
        calculateActiveItemIndex \<sigma> s LastItem t = Some (int k))"
  using calc_empty [of s \<sigma>] calc_first_all_disabled [of s \<sigma> t] calc_last_all_disabled [of s \<sigma> t]
    calc_first_found [of _ s \<sigma> t] calc_last_found [of _ s \<sigma> t]
  by (intro conjI allI impI) auto

theorem first_last_item_resolved_witness:
  "calculateActiveItemIndex cells_abc defaultState FirstItem None = None
   \<and> calculateActiveItemIndex cells_abc defaultState LastItem None = None
   \<and> calculateActiveItemIndex cells_all_disabled abc_first FirstItem None = Some 0
   \<and> calculateActiveItemIndex cells_all_disabled abc_first LastItem None = Some 0
   \<and> calculateActiveItemIndex cells_only_bob menu_abc FirstItem None = Some 1
   \<and> calculateActiveItemIndex cells_only_bob menu_abc LastItem None = Some 1"
proof -
  have e: "items defaultState = []" by (simp add: defaultState_def)
  have d: "items abc_first \<noteq> []
      \<and> (\<forall>k<length (items abc_first). disabled (cells_all_disabled (dataRef (items abc_first ! k))))"
    by (simp add: abc_first_eq menu_abc_eq eval_defs All_less_Suc numeral_3_eq_3)
  have a: "activeItemIndex abc_first = Some 0" by (simp add: abc_first_eq)
  have k: "(1::nat) < length (items menu_abc)" by (simp add: menu_abc_eq)
  have f: "\<not> disabled (cells_only_bob (dataRef (items menu_abc ! 1)))
      \<and> (\<forall>j<1. disabled (cells_only_bob (dataRef (items menu_abc ! j))))"
    by (simp add: menu_abc_eq eval_defs)
  have l: "\<not> disabled (cells_only_bob (dataRef (items menu_abc ! 1)))
      \<and> (\<forall>j<length (items menu_abc). 1 < j \<longrightarrow> disabled (cells_only_bob (dataRef (items menu_abc ! j))))"
    by (simp add: menu_abc_eq eval_defs All_less_Suc numeral_3_eq_3)
  show ?thesis
    using first_last_item_resolved [of defaultState cells_abc None]
      first_last_item_resolved [of abc_first cells_all_disabled None]
      first_last_item_resolved [of menu_abc cells_only_bob None] e d a k f l
    by (metis of_nat_1)
qed

text \<open>
  The claim as it was stated says none on an all-disabled list whatever the prior active
  index. Here the first item was made active while enabled and all items were disabled
  afterwards: both intents keep index \<open>0\<close>.
\<close>

theorem first_last_item_counterexample:
  "list_all (\<lambda>it. disabled (cells_all_disabled (dataRef it))) (items abc_first)
   \<and> calculateActiveItemIndex cells_all_disabled abc_first FirstItem None = Some 0
   \<and> calculateActiveItemIndex cells_all_disabled abc_first LastItem None = Some 0"
  by (simp add: abc_first_eq menu_abc_eq eval_defs)

subsection \<open>A specific item\<close>

text \<open>
  Claim C3, as the code has it. Resolving \<open>SpecificItem\<close> with a target id yields the
  index of the first item with that id. When no item has that id, it yields none on an
  empty list and otherwise the active index the state already had.
\<close>

theorem specific_item_resolved:
  "(items s = [] \<longrightarrow> calculateActiveItemIndex \<sigma> s SpecificItem (Some x) = None)
   \<and> (items s \<noteq> [] \<and> (\<forall>k<length (items s). id' (items s ! k) \<noteq> x) \<longrightarrow>
        calculateActiveItemIndex \<sigma> s SpecificItem (Some x) = activeItemIndex s)
   \<and> (\<forall>k<length (items s).
        id' (items s ! k) = x \<and> (\<forall>j<k. id' (items s ! j) \<noteq> x) \<longrightarrow>
        calculateActiveItemIndex \<sigma> s SpecificItem (Some x) = Some (int k))"
proof (intro conjI allI impI)
  assume "items s = []"
  then show "calculateActiveItemIndex \<sigma> s SpecificItem (Some x) = None" by (rule calc_empty)
next
  assume a: "items s \<noteq> [] \<and> (\<forall>k<length (items s). id' (items s ! k) \<noteq> x)"
  have "findIndex (\<lambda>it _. Some (id' it) = Some x) (items s) = - 1"
    by (rule findIndex_none) (use a in auto)
  then show "calculateActiveItemIndex \<sigma> s SpecificItem (Some x) = activeItemIndex s"
    using a by (simp add: calculateActiveItemIndex_def)
next
  fix k assume k: "k < length (items s)"
    and a: "id' (items s ! k) = x \<and> (\<forall>j<k. id' (items s ! j) \<noteq> x)"
  have "findIndex (\<lambda>it _. Some (id' it) = Some x) (items s) = int k"
    by (rule findIndex_first) (use k a in auto)
  moreover have "items s \<noteq> []" using k by auto
  ultimately show "calculateActiveItemIndex \<sigma> s SpecificItem (Some x) = Some (int k)"
    by (simp add: calculateActiveItemIndex_def)
qed

theorem specific_item_resolved_witness:
  "calculateActiveItemIndex cells_abc defaultState SpecificItem (Some ''item-2'') = None
   \<and> calculateActiveItemIndex cells_abc abc_first SpecificItem (Some ''item-9'') = Some 0
   \<and> calculateActiveItemIndex cells_abc abc_first SpecificItem (Some ''item-2'') = Some 1"
proof -
  have e: "items defaultState = []" by (simp add: defaultState_def)
  have n: "items abc_first \<noteq> [] \<and> (\<forall>k<length (items abc_first). id' (items abc_first ! k) \<noteq> ''item-9'')"
    by (simp add: abc_first_eq menu_abc_eq All_less_Suc numeral_3_eq_3)
  have a: "activeItemIndex abc_first = Some 0" by (simp add: abc_first_eq)
  have k: "(1::nat) < length (items abc_first)" by (simp add: abc_first_eq menu_abc_eq)
  have f: "id' (items abc_first ! 1) = ''item-2'' \<and> (\<forall>j<1. id' (items abc_first ! j) \<noteq> ''item-2'')"
    by (simp add: abc_first_eq menu_abc_eq)
  show ?thesis
    using specific_item_resolved [of defaultState cells_abc "''item-2''"]
      specific_item_resolved [of abc_first cells_abc "''item-9''"]
      specific_item_resolved [of abc_first cells_abc "''item-2''"] e n a k f
    by (metis of_nat_1)
qed

text \<open>
  With the first item active, a target id that no item has leaves index \<open>0\<close>, not none.
\<close>

theorem specific_item_counterexample:
  "''item-9'' \<notin> set (map id' (items abc_first))
   \<and> calculateActiveItemIndex cells_abc abc_first SpecificItem (Some ''item-9'') = Some 0"
  by (simp add: abc_first_eq menu_abc_eq eval_defs)

subsection \<open>Search\<close>

lemma findIndex_exists:
  assumes "\<exists>k<length xs. p (xs ! k) (int k)"
  shows "\<exists>k<length xs. findIndex p xs = int k \<and> p (xs ! k) (int k) \<and> (\<forall>j<k. \<not> p (xs ! j) (int j))"
proof -
  from assms obtain k where k: "k < length xs \<and> p (xs ! k) (int k)" by blast
  define P where "P n \<longleftrightarrow> n < length xs \<and> p (xs ! n) (int n)" for n
  have "\<exists>n. P n" using k P_def by blast
  then obtain m where m: "P m" "\<forall>j<m. \<not> P j" using exists_least_iff [of P] by blast
  have lt: "m < length xs" and pm: "p (xs ! m) (int m)" using m(1) P_def by auto
  have least: "\<And>j. j < m \<Longrightarrow> \<not> p (xs ! j) (int j)" using m(2) lt P_def by auto
  have "findIndex p xs = int m" using lt pm least by (rule findIndex_first)
  then show ?thesis using lt pm least by blast
qed

lemma search_items [simp]: "items (reducers_Search \<sigma> s v) = items s"
  by (simp add: reducers_Search_def Let_def)

lemma search_query [simp]: "searchQuery (reducers_Search \<sigma> s v) = searchQuery s @ v"
  by (simp add: reducers_Search_def Let_def)

lemma search_active_found:
  "findIndex (\<lambda>it _. matches_query \<sigma> (searchQuery s @ v) it) (items s) = int m \<Longrightarrow>
     activeItemIndex (reducers_Search \<sigma> s v) = Some (int m)"
  by (auto simp add: reducers_Search_def Let_def)

text \<open>
  Claim C4, as the code has it. From a state with an empty search query, when some enabled
  item has a text value that starts with the two characters \<open>c1 c2\<close>, dispatching
  \<open>Search\<close> with \<open>c1\<close> and then with \<open>c2\<close> gives the same \<open>activeItemIndex\<close> as one
  \<open>Search\<close> with both: the index of the first enabled item whose text value starts with
  them. The comparison is \<open>startsWith\<close> on the stored text value.
\<close>

theorem search_cumulative:
  assumes empty: "searchQuery s = []"
    and ex: "\<exists>k<length (items s). matches_query \<sigma> [c1, c2] (items s ! k)"
  shows "activeItemIndex (stateReducer \<sigma> (stateReducer \<sigma> s (Search [c1])) (Search [c2]))
           = activeItemIndex (stateReducer \<sigma> s (Search [c1, c2]))
         \<and> (\<exists>k<length (items s).
               activeItemIndex (stateReducer \<sigma> s (Search [c1, c2])) = Some (int k)
               \<and> matches_query \<sigma> [c1, c2] (items s ! k)
               \<and> (\<forall>j<k. \<not> matches_query \<sigma> [c1, c2] (items s ! j)))"
proof -
  from findIndex_exists [of "items s" "\<lambda>it _. matches_query \<sigma> [c1, c2] it"] ex
  obtain m where m: "m < length (items s)"
      "findIndex (\<lambda>it _. matches_query \<sigma> [c1, c2] it) (items s) = int m"
      "matches_query \<sigma> [c1, c2] (items s ! m)"
      "\<forall>j<m. \<not> matches_query \<sigma> [c1, c2] (items s ! j)"
    by blast
  have single: "activeItemIndex (reducers_Search \<sigma> s [c1, c2]) = Some (int m)"
    by (rule search_active_found) (simp add: empty m(2))
  have twice: "activeItemIndex (reducers_Search \<sigma> (reducers_Search \<sigma> s [c1]) [c2]) = Some (int m)"
    by (rule search_active_found) (simp add: empty m(2))
  show ?thesis using single twice m by auto
qed

theorem search_cumulative_witness:
  "searchQuery abc_last = []
   \<and> matches_query cells_abc ''bo'' (items abc_last ! 1)
   \<and> activeItemIndex (stateReducer cells_abc (stateReducer cells_abc abc_last (Search ''b'')) (Search ''o''))
       = Some 1
   \<and> activeItemIndex (stateReducer cells_abc abc_last (Search ''bo'')) = Some 1"
proof -
  have e: "searchQuery abc_last = []" by (simp add: abc_last_eq menu_abc_eq)
  have m: "matches_query cells_abc ''bo'' (items abc_last ! 1)"
    by (simp add: abc_last_eq menu_abc_eq eval_defs)
  have ex: "\<exists>k<length (items abc_last). matches_query cells_abc [CHR ''b'', CHR ''o''] (items abc_last ! k)"
    using m by (intro exI [of _ 1]) (simp add: abc_last_eq menu_abc_eq)
  have one: "activeItemIndex (stateReducer cells_abc abc_last (Search ''bo'')) = Some 1"
    by (simp add: abc_last_eq menu_abc_eq eval_defs)
  show ?thesis
    using search_cumulative [OF e ex] e m one by simp
qed

text \<open>
  Without a match for both characters the two differ: \<open>b\<close> makes \<open>bob\<close> active and \<open>x\<close>
  then finds nothing and leaves it so, while \<open>bx\<close> at once finds nothing and leaves the
  active index none. Upper-case characters do not match the stored text value \<open>bob\<close>.
\<close>

theorem search_cumulative_counterexample:
  "searchQuery menu_abc = []
   \<and> activeItemIndex (stateReducer cells_abc (stateReducer cells_abc menu_abc (Search ''b'')) (Search ''x''))
       = Some 1
   \<and> activeItemIndex (stateReducer cells_abc menu_abc (Search ''bx'')) = None
   \<and> activeItemIndex (stateReducer cells_abc menu_abc (Search ''BO'')) = None"
  by (simp add: menu_abc_eq eval_defs)

subsection \<open>The reducer of \<open>GoToItem\<close>\<close>

text \<open>
  Claim C5. When the search query is empty, \<open>previousActiveIndex\<close> equals
  \<open>activeItemIndex\<close> and the resolved index equals \<open>activeItemIndex\<close>, the reducer of
  \<open>GoToItem\<close> returns the very state object it was given, so the next state is the input
  state. In every other case it returns a new object: the state with \<open>searchQuery\<close> empty,
  \<open>previousActiveIndex\<close> the old \<open>activeItemIndex\<close> and \<open>activeItemIndex\<close> the resolved
  index.
\<close>

theorem goToItem_noop_or_update:
  "(searchQuery s = [] \<and> previousActiveIndex s = activeItemIndex s
      \<and> calculateActiveItemIndex \<sigma> s f t = activeItemIndex s
    \<longrightarrow> reducers_GoToItem \<sigma> s f t = SameRef
        \<and> stateReducer \<sigma> s (GoToItem f t) = s)
   \<and> (\<not> (searchQuery s = [] \<and> previousActiveIndex s = activeItemIndex s
          \<and> calculateActiveItemIndex \<sigma> s f t = activeItemIndex s)
    \<longrightarrow> reducers_GoToItem \<sigma> s f t =
          NewObj (s\<lparr>searchQuery := [], previousActiveIndex := activeItemIndex s,
                    activeItemIndex := calculateActiveItemIndex \<sigma> s f t\<rparr>)
        \<and> stateReducer \<sigma> s (GoToItem f t) =
          s\<lparr>searchQuery := [], previousActiveIndex := activeItemIndex s,
            activeItemIndex := calculateActiveItemIndex \<sigma> s f t\<rparr>)"
proof (intro conjI impI)
  let ?r = "calculateActiveItemIndex \<sigma> s f t"
  let ?c = "searchQuery s = [] \<and> previousActiveIndex s = activeItemIndex s \<and> ?r = activeItemIndex s"
  let ?new = "s\<lparr>searchQuery := [], previousActiveIndex := activeItemIndex s, activeItemIndex := ?r\<rparr>"
  {
    assume c: ?c
    then have eq: "activeItemIndex s = ?r" by simp
    show same: "reducers_GoToItem \<sigma> s f t = SameRef"
      using c eq by (simp add: reducers_GoToItem_def Let_def)
    show "stateReducer \<sigma> s (GoToItem f t) = s" by (simp add: same)
  }
  assume n: "\<not> ?c"
  then have ne: "\<not> (searchQuery s = [] \<and> previousActiveIndex s = activeItemIndex s
      \<and> activeItemIndex s = ?r)" by auto
  show new: "reducers_GoToItem \<sigma> s f t = NewObj ?new"
    using ne by (simp add: reducers_GoToItem_def Let_def)
  show "stateReducer \<sigma> s (GoToItem f t) = ?new" by (simp add: new)
qed

theorem goToItem_noop_or_update_witness:
  "reducers_GoToItem cells_abc abc_end NextItem None = SameRef
   \<and> stateReducer cells_abc abc_end (GoToItem NextItem None) = abc_end
   \<and> reducers_GoToItem cells_abc abc_last NextItem None
       = NewObj (abc_last\<lparr>searchQuery := [], previousActiveIndex := Some 2,
                          activeItemIndex := Some 2\<rparr>)
   \<and> stateReducer cells_abc abc_last (GoToItem NextItem None)
       = abc_last\<lparr>searchQuery := [], previousActiveIndex := Some 2, activeItemIndex := Some 2\<rparr>"
proof -
  have c1: "calculateActiveItemIndex cells_abc abc_end NextItem None = Some 2"
    and c2: "calculateActiveItemIndex cells_abc abc_last NextItem None = Some 2"
    by (simp_all add: abc_end_eq abc_last_eq menu_abc_eq eval_defs)
  have e: "searchQuery abc_end = []" "previousActiveIndex abc_end = Some 2" "activeItemIndex abc_end = Some 2"
    by (simp_all add: abc_end_eq menu_abc_eq)
  have l: "searchQuery abc_last = []" "previousActiveIndex abc_last = None" "activeItemIndex abc_last = Some 2"
    by (simp_all add: abc_last_eq menu_abc_eq)
  have r1: "reducers_GoToItem cells_abc abc_end NextItem None = SameRef
      \<and> stateReducer cells_abc abc_end (GoToItem NextItem None) = abc_end"
    using goToItem_noop_or_update [of abc_end cells_abc NextItem None, THEN conjunct1] c1 e
    by simp
  have r2: "reducers_GoToItem cells_abc abc_last NextItem None
       = NewObj (abc_last\<lparr>searchQuery := [], previousActiveIndex := Some 2,
                          activeItemIndex := Some 2\<rparr>)
      \<and> stateReducer cells_abc abc_last (GoToItem NextItem None)
       = abc_last\<lparr>searchQuery := [], previousActiveIndex := Some 2, activeItemIndex := Some 2\<rparr>"
    using goToItem_noop_or_update [of abc_last cells_abc NextItem None, THEN conjunct2] c2 l
    by simp
  show ?thesis using r1 r2 by blast
qed

subsection \<open>Closing the menu\<close>

text \<open>
  Claim C8. Dispatching \<open>CloseMenu\<close> sets \<open>menuState\<close> to \<open>Closed\<close> and leaves the items,
  \<open>activeItemIndex\<close>, \<open>previousActiveIndex\<close>, \<open>searchQuery\<close> and the two refs as they were.
\<close>

theorem closeMenu_frame:
  "menuState (stateReducer \<sigma> s CloseMenu) = Closed
   \<and> items (stateReducer \<sigma> s CloseMenu) = items s
   \<and> activeItemIndex (stateReducer \<sigma> s CloseMenu) = activeItemIndex s
   \<and> previousActiveIndex (stateReducer \<sigma> s CloseMenu) = previousActiveIndex s
   \<and> searchQuery (stateReducer \<sigma> s CloseMenu) = searchQuery s
   \<and> buttonRef (stateReducer \<sigma> s CloseMenu) = buttonRef s
   \<and> itemsRef (stateReducer \<sigma> s CloseMenu) = itemsRef s"
  by (simp add: reducers_CloseMenu_def)

theorem closeMenu_frame_witness:
  "menuState (stateReducer cells_abc (stateReducer cells_abc abc_last OpenMenu) CloseMenu) = Closed
   \<and> items (stateReducer cells_abc (stateReducer cells_abc abc_last OpenMenu) CloseMenu) = items abc_last
   \<and> activeItemIndex (stateReducer cells_abc (stateReducer cells_abc abc_last OpenMenu) CloseMenu) = Some 2"
  using closeMenu_frame [of cells_abc "stateReducer cells_abc abc_last OpenMenu"]
  by (simp add: reducers_OpenMenu_def abc_last_eq)

subsection \<open>The active index stays an index into the items\<close>

lemma active_validI:
  "(\<And>a. activeItemIndex s = Some a \<Longrightarrow> 0 \<le> a \<and> a < int (length (items s))) \<Longrightarrow> active_valid s"
  by (cases "activeItemIndex s") (auto simp: active_valid_def)

lemma active_validD:
  "active_valid s \<Longrightarrow> activeItemIndex s = Some a \<Longrightarrow> 0 \<le> a \<and> a < int (length (items s))"
  by (auto simp: active_valid_def)

lemma calc_valid:
  assumes v: "active_valid s" and r: "calculateActiveItemIndex \<sigma> s f t = Some r"
  shows "0 \<le> r \<and> r < int (length (items s))"
proof -
  let ?n = "int (length (items s))"
  have ne: "items s \<noteq> []" using r by (auto simp: calculateActiveItemIndex_def Let_def split: if_splits)
  let ?goal = "0 \<le> r \<and> r < ?n"
  have keep: "activeItemIndex s = Some r \<Longrightarrow> ?goal" using v by (rule active_validD)
  have fwd: "\<And>p. Some (findIndex p (items s)) = Some r \<Longrightarrow> r \<noteq> - 1 \<Longrightarrow> ?goal"
    using findIndex_range [of _ "items s"] by auto
  have bwd: "\<And>p. r = ?n - 1 - findIndex p (rev (items s)) \<Longrightarrow> findIndex p (rev (items s)) \<noteq> - 1 \<Longrightarrow> ?goal"
  proof -
    fix p :: "item \<Rightarrow> int \<Rightarrow> bool"
    assume "r = ?n - 1 - findIndex p (rev (items s))" "findIndex p (rev (items s)) \<noteq> - 1"
    then show ?goal using findIndex_range [of p "rev (items s)"] by auto
  qed
  show ?thesis
  proof (cases f)
    case FirstItem
    then show ?thesis using r ne keep fwd
      by (auto simp: calculateActiveItemIndex_def Let_def split: if_splits)
  next
    case PreviousItem
    then show ?thesis using r ne keep bwd
      by (auto simp: calculateActiveItemIndex_def Let_def split: if_splits)
  next
    case NextItem
    then show ?thesis using r ne keep fwd
      by (auto simp: calculateActiveItemIndex_def Let_def split: if_splits)
  next
    case LastItem
    then show ?thesis using r ne keep bwd
      by (auto simp: calculateActiveItemIndex_def Let_def split: if_splits)
  next
    case SpecificItem
    then show ?thesis using r ne keep fwd
      by (auto simp: calculateActiveItemIndex_def Let_def split: if_splits)
  next
    case Nothing
    then show ?thesis using r ne by (auto simp: calculateActiveItemIndex_def Let_def split: if_splits)
  qed
qed

lemma goToItem_valid:
  "active_valid s \<Longrightarrow> active_valid (returned_state s (reducers_GoToItem \<sigma> s f t))"
proof (rule active_validI)
  fix a assume v: "active_valid s"
    and a: "activeItemIndex (returned_state s (reducers_GoToItem \<sigma> s f t)) = Some a"
  have "calculateActiveItemIndex \<sigma> s f t = Some a" using a by (simp add: goToItem_active)
  then show "0 \<le> a \<and> a < int (length (items (returned_state s (reducers_GoToItem \<sigma> s f t))))"
    using calc_valid [OF v] by (simp add: goToItem_items)
qed

lemma search_valid: "active_valid s \<Longrightarrow> active_valid (reducers_Search \<sigma> s v)"
proof (rule active_validI)
  fix a assume v: "active_valid s" and a: "activeItemIndex (reducers_Search \<sigma> s v) = Some a"
  let ?m = "findIndex (\<lambda>it _. matches_query \<sigma> (searchQuery s @ v) it) (items s)"
  have "activeItemIndex s = Some a \<or> (a = ?m \<and> ?m \<noteq> - 1)"
    using a by (auto simp: reducers_Search_def Let_def split: if_splits)
  then have "0 \<le> a \<and> a < int (length (items s))"
    using active_validD [OF v] findIndex_range [of "\<lambda>it _. matches_query \<sigma> (searchQuery s @ v) it" "items s"]
    by auto
  then show "0 \<le> a \<and> a < int (length (items (reducers_Search \<sigma> s v)))" by simp
qed

lemma register_valid: "active_valid s \<Longrightarrow> active_valid (reducers_RegisterItem s x r)"
  by (cases "activeItemIndex s") (auto simp: active_valid_def reducers_RegisterItem_def)

lemma indexOf_member:
  assumes "x \<in> set ys"
  shows "0 \<le> indexOf ys (Obj x) \<and> indexOf ys (Obj x) < int (length ys)"
proof -
  from assms obtain k where "k < length ys" "ys ! k = x" by (auto simp: in_set_conv_nth)
  then have "\<exists>k<length ys. (\<lambda>y _. oid y = oid x) (ys ! k) (int k)" by auto
  from findIndex_exists [OF this] show ?thesis by (auto simp: indexOf_def)
qed

lemma splice1_eq: "0 \<le> i \<Longrightarrow> splice1 xs i = take (nat i) xs @ drop (Suc (nat i)) xs"
  by (simp add: splice1_def)

lemma nth_in_splice:
  assumes "a < length xs" "k < length xs" "a \<noteq> k"
  shows "(take k xs @ drop (Suc k) xs) ! (if k < a then a - 1 else a) = xs ! a"
    and "(if k < a then a - 1 else a) < length (take k xs @ drop (Suc k) xs)"
  using assms by (auto simp: nth_append min_def)

lemma unregister_valid:
  assumes v: "active_valid s"
  shows "active_valid (reducers_UnregisterItem s x)"
proof (rule active_validI)
  fix b assume b: "activeItemIndex (reducers_UnregisterItem s x) = Some b"
  let ?xs = "items s"
  let ?idx = "findIndex (\<lambda>a _. id' a = x) ?xs"
  let ?next = "if ?idx \<noteq> - 1 then splice1 ?xs ?idx else ?xs"
  have its: "items (reducers_UnregisterItem s x) = ?next"
    by (simp add: reducers_UnregisterItem_def Let_def)
  from b obtain a where a: "activeItemIndex s = Some a" and ne: "?idx \<noteq> a"
    by (cases "activeItemIndex s") (auto simp: reducers_UnregisterItem_def Let_def split: if_splits)
  have ar: "0 \<le> a \<and> a < int (length ?xs)" using active_validD [OF v a] .
  then have cur: "at_index ?xs a = Obj (?xs ! nat a)" by (simp add: at_index_def)
  have bval: "b = indexOf ?next (Obj (?xs ! nat a))"
    using b a ne cur by (simp add: reducers_UnregisterItem_def Let_def split: if_splits)
  have mem: "?xs ! nat a \<in> set ?next"
  proof (cases "?idx = - 1")
    case True
    have "nat a < length ?xs" using ar by auto
    then show ?thesis using True by simp
  next
    case False
    then have ir: "0 \<le> ?idx \<and> ?idx < int (length ?xs)"
      using findIndex_range [of "\<lambda>a _. id' a = x" ?xs] by auto
    have "nat a < length ?xs" "nat ?idx < length ?xs" "nat a \<noteq> nat ?idx" using ar ir ne by auto
    from nth_in_splice [OF this] have "?xs ! nat a \<in> set (take (nat ?idx) ?xs @ drop (Suc (nat ?idx)) ?xs)"
      by (metis nth_mem)
    then show ?thesis using False ir by (simp add: splice1_eq)
  qed
  show "0 \<le> b \<and> b < int (length (items (reducers_UnregisterItem s x)))"
    using indexOf_member [OF mem] bval its by simp
qed

lemma stateReducer_valid: "active_valid s \<Longrightarrow> active_valid (stateReducer \<sigma> s act)"
proof (cases act)
  case (GoToItem f t)
  assume "active_valid s" then show ?thesis using GoToItem by (simp add: goToItem_valid)
next
  case (Search v)
  assume "active_valid s" then show ?thesis using Search by (simp add: search_valid)
next
  case (RegisterItem x r)
  assume "active_valid s" then show ?thesis using RegisterItem by (simp add: register_valid)
next
  case (UnregisterItem x)
  assume "active_valid s" then show ?thesis using UnregisterItem by (simp add: unregister_valid)
qed (auto simp add: active_valid_def reducers_ToggleMenu_def reducers_CloseMenu_def
      reducers_OpenMenu_def reducers_ClearSearch_def reducers_SetButtonRef_def
      reducers_SetItemsRef_def split: option.splits)

lemma defaultState_valid: "active_valid defaultState"
  by (simp add: active_valid_def defaultState_def)

lemma fresh_oid_greater: "x \<in> set xs \<Longrightarrow> oid x < fresh_oid xs"
  unfolding fresh_oid_def by (induction xs) auto

lemma fresh_oid_notin: "fresh_oid xs \<notin> set (map oid xs)"
proof
  assume "fresh_oid xs \<in> set (map oid xs)"
  then obtain x where "x \<in> set xs" "oid x = fresh_oid xs" by auto
  then show False using fresh_oid_greater [of x xs] by simp
qed

lemma register_distinct:
  "distinct (map oid (items s)) \<Longrightarrow> distinct (map oid (items (reducers_RegisterItem s x r)))"
  using fresh_oid_notin [of "items s"] by (simp add: reducers_RegisterItem_def)

lemma distinct_remove_nth: "distinct ys \<Longrightarrow> distinct (take k ys @ drop (Suc k) ys)"
  using set_take_disj_set_drop_if_distinct [of ys k "Suc k"] by simp

lemma unregister_items:
  "items (reducers_UnregisterItem s x) =
     (if findIndex (\<lambda>a _. id' a = x) (items s) \<noteq> - 1
      then splice1 (items s) (findIndex (\<lambda>a _. id' a = x) (items s)) else items s)"
  by (simp add: reducers_UnregisterItem_def Let_def)

lemma unregister_distinct:
  assumes "distinct (map oid (items s))"
  shows "distinct (map oid (items (reducers_UnregisterItem s x)))"
proof -
  have "distinct (map oid (take k (items s) @ drop (Suc k) (items s)))" for k
    using distinct_remove_nth [OF assms, of k] by (simp add: take_map drop_map)
  then show ?thesis using assms by (simp add: unregister_items splice1_def)
qed

lemma stateReducer_distinct:
  "distinct (map oid (items s)) \<Longrightarrow> distinct (map oid (items (stateReducer \<sigma> s act)))"
  by (cases act)
    (simp_all add: register_distinct unregister_distinct reducers_ToggleMenu_def
      reducers_CloseMenu_def reducers_OpenMenu_def reducers_ClearSearch_def
      reducers_SetButtonRef_def reducers_SetItemsRef_def goToItem_items
      reducers_Search_def Let_def)

lemma reachable_distinct: "reachable s \<Longrightarrow> distinct (map oid (items s))"
  by (induction rule: reachable.induct) (simp_all add: defaultState_def stateReducer_distinct)

lemma indexOf_nth:
  assumes d: "distinct (map oid ys)" and k: "k < length ys"
  shows "indexOf ys (Obj (ys ! k)) = int k"
proof -
  have "findIndex (\<lambda>y _. oid y = oid (ys ! k)) ys = int k"
  proof (rule findIndex_first [OF k])
    show "oid (ys ! k) = oid (ys ! k)" by simp
    fix j assume j: "j < k"
    have "\<forall>i<length ys. \<forall>j<length ys. i \<noteq> j \<longrightarrow> oid (ys ! i) \<noteq> oid (ys ! j)"
      using d by (simp add: distinct_conv_nth)
    then show "oid (ys ! j) \<noteq> oid (ys ! k)" using j k by simp
  qed
  then show ?thesis by (simp add: indexOf_def)
qed

lemma reachable_valid: "reachable s \<Longrightarrow> active_valid s"
  by (induction rule: reachable.induct) (simp_all add: defaultState_valid stateReducer_valid)

lemma reachable_dispatch_all: "reachable s \<Longrightarrow> reachable (dispatch_all \<sigma> s acts)"
  unfolding dispatch_all_def by (induction acts arbitrary: s) (simp_all add: reachable.step)

lemma reachable_menu_abc: "reachable menu_abc"
  unfolding menu_abc_def by (rule reachable_dispatch_all) (rule reachable.init)

lemma reachable_abc_last: "reachable abc_last"
  unfolding abc_last_def by (rule reachable.step) (rule reachable_menu_abc)

lemma reachable_abc_end: "reachable abc_end"
  unfolding abc_end_def by (rule reachable.step) (rule reachable_abc_last)

text \<open>
  Claim C7. In every state reached from the default state by dispatching actions, whatever
  the cells of the items hold at each dispatch, \<open>activeItemIndex\<close> is none or an index
  into the current items.
\<close>

theorem reachable_active_valid: "reachable s \<Longrightarrow> active_valid s"
proof (induction rule: reachable.induct)
  case init
  show ?case by (rule defaultState_valid)
next
  case (step state \<sigma> action)
  then show ?case by (simp add: stateReducer_valid)
qed

theorem reachable_active_valid_witness:
  "reachable (stateReducer cells_abc abc_last (UnregisterItem ''item-1''))
   \<and> active_valid (stateReducer cells_abc abc_last (UnregisterItem ''item-1''))
   \<and> activeItemIndex (stateReducer cells_abc abc_last (UnregisterItem ''item-1'')) = Some 1
   \<and> length (items (stateReducer cells_abc abc_last (UnregisterItem ''item-1''))) = 2"
proof -
  have r: "reachable (stateReducer cells_abc abc_last (UnregisterItem ''item-1''))"
    by (rule reachable.step) (rule reachable_abc_last)
  have e: "activeItemIndex (stateReducer cells_abc abc_last (UnregisterItem ''item-1'')) = Some 1
      \<and> length (items (stateReducer cells_abc abc_last (UnregisterItem ''item-1''))) = 2"
    by (simp add: abc_last_eq menu_abc_eq reducers_UnregisterItem_def findIndex_def indexOf_def
        at_index_def splice1_def Let_def)
  show ?thesis using reachable_active_valid [OF r] r e by simp
qed

subsection \<open>Unregistering an item\<close>

text \<open>
  Claim C9. In a reachable state, dispatching \<open>UnregisterItem\<close> with an id that no item
  has leaves the items and \<open>activeItemIndex\<close> as they were. The reducer has no failing
  branch.
\<close>

theorem unregister_absent_id:
  assumes r: "reachable s" and absent: "x \<notin> set (map id' (items s))"
  shows "items (stateReducer \<sigma> s (UnregisterItem x)) = items s
         \<and> activeItemIndex (stateReducer \<sigma> s (UnregisterItem x)) = activeItemIndex s"
proof -
  have idx: "findIndex (\<lambda>a _. id' a = x) (items s) = - 1"
    by (rule findIndex_none) (use absent in auto)
  have v: "active_valid s" using r by (rule reachable_valid)
  have d: "distinct (map oid (items s))" using r by (rule reachable_distinct)
  show ?thesis
  proof (cases "activeItemIndex s")
    case None
    then show ?thesis using idx by (simp add: reducers_UnregisterItem_def Let_def)
  next
    case (Some a)
    have ar: "0 \<le> a \<and> a < int (length (items s))" using active_validD [OF v Some] .
    then have k: "nat a < length (items s)" by auto
    have cur: "at_index (items s) a = Obj (items s ! nat a)" using ar by (simp add: at_index_def)
    have "indexOf (items s) (Obj (items s ! nat a)) = a" using indexOf_nth [OF d k] ar by simp
    then show ?thesis using idx Some cur ar by (simp add: reducers_UnregisterItem_def Let_def)
  qed
qed

theorem unregister_absent_id_witness:
  "reachable abc_last \<and> ''item-9'' \<notin> set (map id' (items abc_last))
   \<and> items (stateReducer cells_abc abc_last (UnregisterItem ''item-9'')) = items abc_last
   \<and> activeItemIndex (stateReducer cells_abc abc_last (UnregisterItem ''item-9'')) = Some 2"
proof -
  have a: "''item-9'' \<notin> set (map id' (items abc_last))" by (simp add: abc_last_eq menu_abc_eq)
  have "activeItemIndex abc_last = Some 2" by (simp add: abc_last_eq)
  then show ?thesis
    using unregister_absent_id [OF reachable_abc_last a, of cells_abc] reachable_abc_last a by simp
qed

lemma menu_dup_eq:
  "menu_dup = \<lparr>menuState = Closed, buttonRef = 0, itemsRef = 1,
     items = [\<lparr>oid = 0, id' = ''item-1'', dataRef = 0\<rparr>,
              \<lparr>oid = 1, id' = ''item-2'', dataRef = 1\<rparr>,
              \<lparr>oid = 2, id' = ''item-1'', dataRef = 2\<rparr>],
     searchQuery = [], previousActiveIndex = None, activeItemIndex = None\<rparr>"
  by (simp add: menu_dup_def dispatch_all_def defaultState_def reducers_RegisterItem_def fresh_oid_def)

lemma dup_last_eq: "dup_last = menu_dup\<lparr>activeItemIndex := Some 2\<rparr>"
  by (simp add: dup_last_def menu_dup_eq eval_defs goToItem_state)

lemma reachable_dup_last: "reachable dup_last"
  unfolding dup_last_def menu_dup_def
  by (rule reachable.step) (rule reachable_dispatch_all, rule reachable.init)

text \<open>
  Claim C6, as the code has it. In a reachable state with an active item at index \<open>a\<close>,
  dispatching \<open>UnregisterItem\<close> with an id removes the first item that has this id, at
  index \<open>k\<close>. When that item is the active one, \<open>activeItemIndex\<close> becomes none. When it is
  another item, \<open>activeItemIndex\<close> becomes the index where the active item now stands
  (\<open>a - 1\<close> when \<open>k < a\<close>, else \<open>a\<close>). When ids are pairwise distinct the first item with
  the id is the only one.
\<close>

theorem unregister_active_index:
  assumes r: "reachable s" and act: "activeItemIndex s = Some (int a)"
    and k: "k < length (items s)" and xk: "id' (items s ! k) = x"
    and first: "\<forall>j<k. id' (items s ! j) \<noteq> x"
  shows "items (stateReducer \<sigma> s (UnregisterItem x)) = take k (items s) @ drop (Suc k) (items s)
         \<and> (k = a \<longrightarrow> activeItemIndex (stateReducer \<sigma> s (UnregisterItem x)) = None)
         \<and> (k \<noteq> a \<longrightarrow>
              activeItemIndex (stateReducer \<sigma> s (UnregisterItem x))
                = Some (int (if k < a then a - 1 else a))
              \<and> items (stateReducer \<sigma> s (UnregisterItem x)) ! (if k < a then a - 1 else a)
                = items s ! a)"
proof (intro conjI impI)
  have v: "active_valid s" using r by (rule reachable_valid)
  have d: "distinct (map oid (items s))" using r by (rule reachable_distinct)
  have a: "a < length (items s)" using active_validD [OF v act] by simp
  have cur: "at_index (items s) (int a) = Obj (items s ! a)" using a by (simp add: at_index_def)
  let ?next = "take k (items s) @ drop (Suc k) (items s)"
  let ?b = "if k < a then a - 1 else a"
  have idx: "findIndex (\<lambda>a _. id' a = x) (items s) = int k"
    by (rule findIndex_first [where p = "\<lambda>a _. id' a = x", OF k xk]) (use first in simp)
  show its: "items (stateReducer \<sigma> s (UnregisterItem x)) = ?next"
    using idx by (simp add: unregister_items splice1_def)
  {
    assume "k = a"
    then show "activeItemIndex (stateReducer \<sigma> s (UnregisterItem x)) = None"
      using idx act by (simp add: reducers_UnregisterItem_def Let_def)
  }
  {
    assume ne: "k \<noteq> a"
    then have ne': "a \<noteq> k" by simp
    have nth: "?next ! ?b = items s ! a" and lt: "?b < length ?next"
      using nth_in_splice [OF a k ne'] by simp_all
    show "items (stateReducer \<sigma> s (UnregisterItem x)) ! ?b = items s ! a"
      using its nth by simp
    have dn: "distinct (map oid ?next)"
      using distinct_remove_nth [of "map oid (items s)" k] d by (simp add: take_map drop_map)
    have "indexOf ?next (Obj (items s ! a)) = int ?b"
      using indexOf_nth [OF dn lt] nth by simp
    then show "activeItemIndex (stateReducer \<sigma> s (UnregisterItem x)) = Some (int ?b)"
      using idx act cur ne by (simp add: reducers_UnregisterItem_def splice1_def Let_def)
  }
qed

theorem unregister_active_index_witness:
  "reachable abc_last \<and> activeItemIndex abc_last = Some 2
   \<and> activeItemIndex (stateReducer cells_abc abc_last (UnregisterItem ''item-3'')) = None
   \<and> map id' (items (stateReducer cells_abc abc_last (UnregisterItem ''item-3''))) = [''item-1'', ''item-2'']
   \<and> activeItemIndex (stateReducer cells_abc abc_last (UnregisterItem ''item-1'')) = Some 1
   \<and> map id' (items (stateReducer cells_abc abc_last (UnregisterItem ''item-1''))) = [''item-2'', ''item-3'']
   \<and> items (stateReducer cells_abc abc_last (UnregisterItem ''item-1'')) ! 1 = items abc_last ! 2"
proof -
  have its: "items abc_last = [\<lparr>oid = 0, id' = ''item-1'', dataRef = 0\<rparr>,
              \<lparr>oid = 1, id' = ''item-2'', dataRef = 1\<rparr>,
              \<lparr>oid = 2, id' = ''item-3'', dataRef = 2\<rparr>]"
    by (simp add: abc_last_eq menu_abc_eq)
  have a: "activeItemIndex abc_last = Some (int 2)" by (simp add: abc_last_eq)
  have k3: "(2::nat) < length (items abc_last)" and x3: "id' (items abc_last ! 2) = ''item-3''"
    and f3: "\<forall>j<2. id' (items abc_last ! j) \<noteq> ''item-3''"
    by (simp_all add: its All_less_Suc numeral_2_eq_2)
  have k1: "(0::nat) < length (items abc_last)" and x1: "id' (items abc_last ! 0) = ''item-1''"
    and f1: "\<forall>j<0. id' (items abc_last ! j) \<noteq> ''item-1''"
    by (simp_all add: its)
  have r3: "items (stateReducer cells_abc abc_last (UnregisterItem ''item-3''))
              = take 2 (items abc_last) @ drop (Suc 2) (items abc_last)
            \<and> activeItemIndex (stateReducer cells_abc abc_last (UnregisterItem ''item-3'')) = None"
    using unregister_active_index [OF reachable_abc_last a k3 x3 f3, of cells_abc] by simp
  have ne: "(0::nat) \<noteq> 2" by simp
  have r1: "items (stateReducer cells_abc abc_last (UnregisterItem ''item-1''))
              = take 0 (items abc_last) @ drop (Suc 0) (items abc_last)
            \<and> activeItemIndex (stateReducer cells_abc abc_last (UnregisterItem ''item-1''))
                = Some (int (if 0 < (2::nat) then 2 - 1 else 2))
            \<and> items (stateReducer cells_abc abc_last (UnregisterItem ''item-1''))
                  ! (if 0 < (2::nat) then 2 - 1 else 2)
                = items abc_last ! 2"
    using unregister_active_index [OF reachable_abc_last a k1 x1 f1, of cells_abc] ne by blast
  show ?thesis using r3 r1 reachable_abc_last a by (simp add: its)
qed

text \<open>
  The claim as it was stated fails where two items carry one id, which \<open>RegisterItem\<close>
  allows: with the third item active and registered under the id of the first,
  unregistering that id removes the first item, and the third stays active at index \<open>1\<close>.
\<close>

theorem unregister_active_index_counterexample:
  "reachable dup_last
   \<and> activeItemIndex dup_last = Some 2
   \<and> id' (items dup_last ! 2) = ''item-1''
   \<and> activeItemIndex (stateReducer cells_abc dup_last (UnregisterItem ''item-1'')) = Some 1
   \<and> items (stateReducer cells_abc dup_last (UnregisterItem ''item-1''))
       = [items dup_last ! 1, items dup_last ! 2]"
  using reachable_dup_last
  by (simp add: dup_last_eq menu_dup_eq reducers_UnregisterItem_def findIndex_def indexOf_def
      at_index_def splice1_def Let_def)



end
